theory Spec2Isabelle
  imports Main "HOL-Library.Word"
begin

unbundle bit_operations_syntax

section \<open>The rescue program: data model\<close>

text \<open>
  The program maps a file or a device into memory and walks over it one byte at a time.
  Pointers into the mapping are modelled as offsets from \<^verbatim>\<open>g_start\<close>; the one-past-the-end
  pointer \<^verbatim>\<open>end\<close> is the offset \<open>length (bytes m)\<close>.

  A C read at an offset at or past \<^verbatim>\<open>end\<close> has no defined result. What it does depends on
  the address space behind the mapping: where the page is mapped (the rest of the last
  page of the file, or whatever follows it), \<open>mapped m a\<close> holds and the read gives the
  byte \<open>beyond m a\<close>; where it is not, the read ends the process with a signal, the fault
  \<open>BadRead a\<close> of the model. Both are arbitrary in every general statement below.

  \<^verbatim>\<open>check_if_bytes_match\<close> tests \<^verbatim>\<open>&mem[i] != end\<close> before it reads \<^verbatim>\<open>mem[i]\<close>, and
  \<^verbatim>\<open>jpeg_find_footer\<close> reads \<^verbatim>\<open>mem[0]\<close> and \<^verbatim>\<open>mem[1]\<close> only up to \<^verbatim>\<open>end - 2\<close> and \<^verbatim>\<open>mem[2]\<close>
  and \<^verbatim>\<open>mem[3]\<close> only where \<^verbatim>\<open>mem + 3 < end\<close>: called by the driver they read inside the
  buffer (lemmas \<open>jpeg_is_header_bytes_only\<close> and \<open>jpeg_find_footer_bytes_only\<close>), and
  their reads are the total \<open>load\<close>. The loop of \<^verbatim>\<open>ascii_rescue\<close> reads \<^verbatim>\<open>*cur\<close> before it
  tests \<^verbatim>\<open>cur < end\<close>: there the read can fault, and the loop returns the offsets that it
  has read.

  \<open>creatable m name\<close> tells whether \<^verbatim>\<open>fopen(name, "w")\<close> returns a stream. The source
  passes the result of \<^verbatim>\<open>fopen\<close> to \<^verbatim>\<open>fwrite\<close> and \<^verbatim>\<open>fclose\<close> without looking at it: on the
  null stream the process dies there, the fault \<open>NullStream name\<close>. A stream that was
  opened need not take all the bytes (a full disk): \<open>capacity m name\<close> is \<open>Some n\<close> where
  only the first \<open>n\<close> bytes written to that file reach it, and \<open>None\<close> where all do. The
  source looks neither at the result of \<^verbatim>\<open>fwrite\<close> nor at that of \<^verbatim>\<open>fclose\<close>.
\<close>

type_synonym u8 = "8 word"
type_synonym u64 = "64 word"

record env =
  bytes :: "u8 list"
  beyond :: "nat \<Rightarrow> u8"
  mapped :: "nat \<Rightarrow> bool"
  creatable :: "string \<Rightarrow> bool"
  capacity :: "string \<Rightarrow> nat option"

definition load :: "env \<Rightarrow> nat \<Rightarrow> u8" where
  "load m a = (if a < length (bytes m) then bytes m ! a else beyond m a)"

definition bad_read :: "env \<Rightarrow> nat \<Rightarrow> bool" where
  "bad_read m a = (length (bytes m) \<le> a \<and> \<not> mapped m a)"

text \<open>A fragment as it is handed to \<^verbatim>\<open>write_fragment\<close>: start, end (one past), extension.\<close>

type_synonym fragment = "nat \<times> nat \<times> string"

text \<open>
  The globals \<^verbatim>\<open>g_fragment_id\<close> and \<^verbatim>\<open>g_ascii_ignore_before\<close> (initially \<^verbatim>\<open>NULL\<close>, which is
  below every address of the mapping: offset 0), and what the program leaves behind:
  the arguments of every call of \<^verbatim>\<open>write_fragment\<close>, the files of the current directory,
  the lines on \<^verbatim>\<open>std::cout\<close> and the lines of the detectors and of the sink on \<^verbatim>\<open>std::cerr\<close>
  (the progress display of \<^verbatim>\<open>main\<close> is left out).
\<close>

record state =
  g_fragment_id :: u64
  g_ascii_ignore_before :: nat
  fragments :: "fragment list"
  disk :: "string \<rightharpoonup> u8 list"
  cout :: "string list"
  cerr :: "string list"

definition init_state :: state where
  "init_state = \<lparr>g_fragment_id = 0, g_ascii_ignore_before = 0, fragments = [],
                 disk = Map.empty, cout = [], cerr = []\<rparr>"

datatype fault = NullStream string | BadRead nat

type_synonym outcome = "(fault \<times> state) + state"

definition final :: "outcome \<Rightarrow> state" where
  "final r = (case r of Inl (c, s) \<Rightarrow> s | Inr s \<Rightarrow> s)"

definition and_then :: "outcome \<Rightarrow> (state \<Rightarrow> outcome) \<Rightarrow> outcome" where
  "and_then r f = (case r of Inl c \<Rightarrow> Inl c | Inr s \<Rightarrow> f s)"

section \<open>Number rendering of the output streams\<close>

definition digit :: "nat \<Rightarrow> char" where
  "digit d = ''0123456789'' ! d"

function dec :: "nat \<Rightarrow> string" where
  "dec n = (if n < 10 then [digit n] else dec (n div 10) @ [digit (n mod 10)])"
  by pat_completeness auto
termination
  by (relation "measure (\<lambda>n. n)") auto

declare dec.simps [simp del]

definition dec_int :: "int \<Rightarrow> string" where
  "dec_int k = (if k < 0 then CHR ''-'' # dec (nat (- k)) else dec (nat k))"

section \<open>check_if_bytes_match\<close>

text \<open>
  \<^verbatim>\<open>while (i < pattern_size && &mem[i] != end && (mem[i] & mask[i]) == pattern[i]) i++;\<close>
  \<^verbatim>\<open>return (i == pattern_size);\<close>
\<close>

function match_loop :: "env \<Rightarrow> nat \<Rightarrow> nat \<Rightarrow> nat \<Rightarrow> u8 list \<Rightarrow> u8 list \<Rightarrow> nat \<Rightarrow> nat" where
  "match_loop m mem en pattern_size pattern msk i =
     (if i < pattern_size \<and> mem + i \<noteq> en \<and> (load m (mem + i) AND msk ! i) = pattern ! i
      then match_loop m mem en pattern_size pattern msk (i + 1)
      else i)"
  by pat_completeness auto
termination
  by (relation "measure (\<lambda>(m, mem, en, pattern_size, pattern, msk, i). pattern_size - i)") auto

declare match_loop.simps [simp del]

definition check_if_bytes_match :: "env \<Rightarrow> nat \<Rightarrow> nat \<Rightarrow> nat \<Rightarrow> u8 list \<Rightarrow> u8 list \<Rightarrow> bool" where
  "check_if_bytes_match m mem en pattern_size pattern msk =
     (match_loop m mem en pattern_size pattern msk 0 = pattern_size)"

text \<open>
  The masked comparison in the words of the specification's data model: the pattern fits
  before the end of the buffer and \<open>(data & mask) = (pattern & mask)\<close> at every byte.
\<close>

definition spec_masked_match :: "env \<Rightarrow> nat \<Rightarrow> nat \<Rightarrow> u8 list \<Rightarrow> u8 list \<Rightarrow> bool" where
  "spec_masked_match m position pattern_size pattern msk =
     (position + pattern_size \<le> length (bytes m) \<and>
      list_all (\<lambda>i. (bytes m ! (position + i) AND msk ! i) = (pattern ! i AND msk ! i))
        [0..<pattern_size])"

section \<open>The JPEG detector\<close>

definition jpeg_pattern_size :: nat where
  "jpeg_pattern_size = 12"

definition jfif_pattern :: "u8 list" where
  "jfif_pattern = [0xFF, 0xD8, 0xFF, 0xE0, 0, 0, 0x4A, 0x46, 0x49, 0x46, 0x00, 0x01]"

definition exif_pattern :: "u8 list" where
  "exif_pattern = [0xFF, 0xD8, 0xFF, 0xE1, 0, 0, 0x45, 0x78, 0x69, 0x66, 0x00, 0x00]"

definition jpeg_mask :: "u8 list" where
  "jpeg_mask = [0xFF, 0xFF, 0xFF, 0xFF, 0, 0, 0xFF, 0xFF, 0xFF, 0xFF, 0xFF, 0xFF]"

definition jpeg_is_header :: "env \<Rightarrow> nat \<Rightarrow> nat \<Rightarrow> bool" where
  "jpeg_is_header m mem en =
     (check_if_bytes_match m mem en jpeg_pattern_size jfif_pattern jpeg_mask \<or>
      check_if_bytes_match m mem en jpeg_pattern_size exif_pattern jpeg_mask)"

definition max_length_bytes :: int where
  "max_length_bytes = 40 * 1024 * 1024"

text \<open>
  The loop of \<^verbatim>\<open>jpeg_find_footer\<close>. \<^verbatim>\<open>max_mem\<close> is \<^verbatim>\<open>end - 2\<close>, which lies before the mapping
  when the buffer has fewer than two bytes: it is an integer, not a natural number.
\<close>

function footer_loop :: "env \<Rightarrow> nat \<Rightarrow> int \<Rightarrow> nat \<Rightarrow> nat option" where
  "footer_loop m en max_mem mem =
     (if int mem \<le> max_mem then
        (if load m mem = 0xFF \<and> load m (mem + 1) = 0xD9 then
           (if mem + 3 \<ge> en \<or> load m (mem + 2) \<noteq> 0xFF \<or> load m (mem + 3) \<noteq> 0xE1
            then Some (mem + 2)
            else footer_loop m en max_mem (mem + 1))
         else footer_loop m en max_mem (mem + 1))
      else None)"
  by pat_completeness auto
termination
  by (relation "measure (\<lambda>(m, en, max_mem, mem). nat (max_mem + 1 - int mem))") auto

declare footer_loop.simps [simp del]

definition jpeg_find_footer :: "env \<Rightarrow> nat \<Rightarrow> nat \<Rightarrow> nat option" where
  "jpeg_find_footer m mem en =
     (let max_mem = int en - 2;
          max_mem = (if max_mem > int mem + max_length_bytes
                     then int mem + max_length_bytes else max_mem)
      in footer_loop m en max_mem mem)"

section \<open>The fragment sink\<close>

text \<open>\<^verbatim>\<open>snprintf(filename, 256, "%s-fragment-%llu.%s", extension, g_fragment_id, extension)\<close>\<close>

definition fragment_name :: "string \<Rightarrow> u64 \<Rightarrow> string" where
  "fragment_name extension fid =
     take 255 (extension @ ''-fragment-'' @ dec (unat fid) @ ''.'' @ extension)"

text \<open>
  \<^verbatim>\<open>fwrite(start, 1, end - start, f)\<close>: the count is the pointer difference as a \<^verbatim>\<open>size_t\<close>.
  \<open>stored\<close> is what of these bytes the file holds after \<^verbatim>\<open>fclose\<close>.
\<close>

definition fwrite_bytes :: "env \<Rightarrow> nat \<Rightarrow> nat \<Rightarrow> u8 list" where
  "fwrite_bytes m start en =
     map (load m) [start..<start + nat ((int en - int start) mod 2 ^ 64)]"

definition stored :: "env \<Rightarrow> string \<Rightarrow> u8 list \<Rightarrow> u8 list" where
  "stored m filename bs = (case capacity m filename of None \<Rightarrow> bs | Some n \<Rightarrow> take n bs)"

definition write_fragment :: "env \<Rightarrow> nat \<Rightarrow> nat \<Rightarrow> string \<Rightarrow> state \<Rightarrow> outcome" where
  "write_fragment m start en extension s =
     (let s1 = s\<lparr>g_fragment_id := g_fragment_id s + 1,
                 fragments := fragments s @ [(start, en, extension)]\<rparr>;
          filename = fragment_name extension (g_fragment_id s1)
      in if \<not> creatable m filename then Inl (NullStream filename, s1)
         else Inr (s1\<lparr>disk := (disk s1)(filename \<mapsto> stored m filename (fwrite_bytes m start en)),
                      cout := cout s1 @ [''gzip '' @ filename],
                      cerr := cerr s1 @ [''Wrote '' @ filename @ '' ('' @
                                dec_int (int en - int start) @ '' bytes)'']\<rparr>))"

definition jpeg_rescue :: "env \<Rightarrow> nat \<Rightarrow> nat \<Rightarrow> state \<Rightarrow> outcome" where
  "jpeg_rescue m cur en s =
     (if jpeg_is_header m cur en then
        (let s1 = s\<lparr>cerr := cerr s @ [''JPEG: found header at byte '' @ dec cur]\<rparr>
         in case jpeg_find_footer m cur en of
              None \<Rightarrow> Inr (s1\<lparr>cerr := cerr s1 @ [''JPEG: footer not found!'']\<rparr>)
            | Some jpeg_end \<Rightarrow>
                write_fragment m cur jpeg_end ''jpg''
                  (s1\<lparr>cerr := cerr s1 @ [''JPEG: footer found'']\<rparr>))
      else Inr s)"

section \<open>The ASCII detector\<close>

text \<open>
  \<^verbatim>\<open>while (*cur >= 0x20 && *cur <= 0x7E && cur < end) cur++;\<close>
  Every evaluation of the loop condition begins with the read of \<^verbatim>\<open>*cur\<close>. The loop
  returns the final \<^verbatim>\<open>cur\<close> and, in order, the offsets at which it has read, or the fault
  of the first read that the address space refuses.
\<close>

function ascii_run :: "env \<Rightarrow> nat \<Rightarrow> nat \<Rightarrow> nat list \<Rightarrow> fault + nat \<times> nat list" where
  "ascii_run m en cur rd =
     (if bad_read m cur then Inl (BadRead cur)
      else if load m cur \<ge> 0x20 \<and> load m cur \<le> 0x7E \<and> cur < en
      then ascii_run m en (cur + 1) (rd @ [cur])
      else Inr (cur, rd @ [cur]))"
  by pat_completeness auto
termination
  by (relation "measure (\<lambda>(m, en, cur, rd). en - cur)") auto

declare ascii_run.simps [simp del]

definition min_size_bytes :: nat where
  "min_size_bytes = 1024"

text \<open>
  \<^verbatim>\<open>cur - ascii_start\<close> is never negative, the loop only moves \<^verbatim>\<open>cur\<close> forward
  (lemma \<open>ascii_run_bounds\<close>), so the difference is taken on natural numbers.
\<close>

definition ascii_rescue :: "env \<Rightarrow> nat \<Rightarrow> nat \<Rightarrow> state \<Rightarrow> outcome" where
  "ascii_rescue m cur en s =
     (let ascii_start = cur in
      if cur < g_ascii_ignore_before s then Inr s
      else
        (case ascii_run m en cur [] of
           Inl c \<Rightarrow> Inl (c, s)
         | Inr (cur', rd) \<Rightarrow>
             and_then
               (if cur' - ascii_start \<ge> min_size_bytes
                then write_fragment m ascii_start cur' ''txt''
                       (s\<lparr>cerr := cerr s @ [''ASCII: '' @ dec (cur' - ascii_start) @
                                              '' bytes of text found'']\<rparr>)
                else Inr s)
               (\<lambda>s2. Inr (s2\<lparr>g_ascii_ignore_before := cur'\<rparr>))))"

section \<open>The scan driver\<close>

text \<open>
  \<^verbatim>\<open>while (cur != end) { jpeg_rescue(cur, end); ascii_rescue(cur, end); cur++; }\<close>
  The loop tests for inequality, so that it returns is a theorem and not part of the
  definition: \<open>None\<close> stands for a loop that runs forever. \<open>scan\<close> is \<^verbatim>\<open>main\<close> from the
  point where the input is mapped: the cursor starts at \<^verbatim>\<open>g_start\<close>, the globals have
  their initial values, and \<^verbatim>\<open>end\<close> is \<^verbatim>\<open>g_start + sb.st_size\<close>.
\<close>

partial_function (option) scan_loop :: "env \<Rightarrow> nat \<Rightarrow> nat \<Rightarrow> state \<Rightarrow> outcome option" where
  "scan_loop m en cur s =
     (if cur \<noteq> en then
        (case jpeg_rescue m cur en s of
           Inl c \<Rightarrow> Some (Inl c)
         | Inr s1 \<Rightarrow>
             (case ascii_rescue m cur en s1 of
                Inl c \<Rightarrow> Some (Inl c)
              | Inr s2 \<Rightarrow> scan_loop m en (cur + 1) s2))
      else Some (Inr s))"

declare scan_loop.simps [code]

definition scan :: "env \<Rightarrow> outcome option" where
  "scan m = scan_loop m (length (bytes m)) 0 init_state"

section \<open>Notions of the specification\<close>

text \<open>
  The end-of-image marker and its continuation, as byte sequences of the buffer: both bytes
  of \<^verbatim>\<open>FF D9\<close> lie inside the buffer, and \<^verbatim>\<open>FF E1\<close> follows only when both of its bytes do.
  A terminator is an \<^verbatim>\<open>FF D9\<close> that is not immediately followed by \<^verbatim>\<open>FF E1\<close>.
\<close>

definition ffd9_at :: "env \<Rightarrow> nat \<Rightarrow> bool" where
  "ffd9_at m p = (p + 1 < length (bytes m) \<and> bytes m ! p = 0xFF \<and> bytes m ! (p + 1) = 0xD9)"

definition ffe1_follows :: "env \<Rightarrow> nat \<Rightarrow> bool" where
  "ffe1_follows m p =
     (p + 3 < length (bytes m) \<and> bytes m ! (p + 2) = 0xFF \<and> bytes m ! (p + 3) = 0xE1)"

definition terminator_at :: "env \<Rightarrow> nat \<Rightarrow> bool" where
  "terminator_at m p = (ffd9_at m p \<and> \<not> ffe1_follows m p)"

text \<open>The last offset that the footer search examines for a header at \<open>mem\<close>.\<close>

definition window_end :: "nat \<Rightarrow> nat \<Rightarrow> int" where
  "window_end mem en = min (int en - 2) (int mem + max_length_bytes)"

text \<open>
  The printable range and the end of the maximal printable run that starts at a position,
  capped at the end of the buffer.
\<close>

definition printable :: "u8 \<Rightarrow> bool" where
  "printable b = (0x20 \<le> b \<and> b \<le> 0x7E)"

definition run_end :: "env \<Rightarrow> nat \<Rightarrow> nat" where
  "run_end m position = position + length (takeWhile printable (drop position (bytes m)))"

text \<open>\<open>start < end \<le> length\<close> for a fragment.\<close>

definition well_bounded :: "nat \<Rightarrow> fragment \<Rightarrow> bool" where
  "well_bounded n f = (fst f < fst (snd f) \<and> fst (snd f) \<le> n)"

text \<open>
  Sequences of detector invocations: \<open>run_calls\<close> performs them in order and stops at the
  first fault, as the process does. \<open>driver_calls cur en\<close> is the sequence that is left
  to do for a cursor at \<open>cur\<close>: the JPEG detector and then the ASCII detector, once at
  every offset from \<open>cur\<close> to \<open>en - 1\<close>.
\<close>

datatype call = Jpeg nat | Ascii nat

definition invoke :: "env \<Rightarrow> nat \<Rightarrow> call \<Rightarrow> state \<Rightarrow> outcome" where
  "invoke m en c s =
     (case c of Jpeg cur \<Rightarrow> jpeg_rescue m cur en s | Ascii cur \<Rightarrow> ascii_rescue m cur en s)"

definition run_calls :: "env \<Rightarrow> nat \<Rightarrow> call list \<Rightarrow> outcome \<Rightarrow> outcome" where
  "run_calls m en cs r = foldl (\<lambda>r c. and_then r (invoke m en c)) r cs"

definition driver_calls :: "nat \<Rightarrow> nat \<Rightarrow> call list" where
  "driver_calls cur en = concat (map (\<lambda>p. [Jpeg p, Ascii p]) [cur..<en])"

definition position_of :: "call \<Rightarrow> nat" where
  "position_of c = (case c of Jpeg cur \<Rightarrow> cur | Ascii cur \<Rightarrow> cur)"

definition fault_of :: "outcome \<Rightarrow> fault option" where
  "fault_of r = (case r of Inl (c, s) \<Rightarrow> Some c | Inr s \<Rightarrow> None)"

text \<open>
  The number of invocations of a sequence that are made before a fault ends the process,
  and the content of an artifact at the end of a run.
\<close>

fun calls_made :: "env \<Rightarrow> nat \<Rightarrow> call list \<Rightarrow> outcome \<Rightarrow> nat" where
  "calls_made m en [] r = 0"
| "calls_made m en (c # cs) r =
     (case r of Inl x \<Rightarrow> 0 | Inr s \<Rightarrow> Suc (calls_made m en cs (invoke m en c s)))"

definition artifact :: "string \<Rightarrow> outcome \<Rightarrow> u8 list option" where
  "artifact name r = disk (final r) name"

section \<open>Sample buffers\<close>

text \<open>
  \<open>zero_fill\<close> with \<open>rest_mapped\<close>: the rest of the last page of a mapping can be read, as
  zero. \<open>rest_unmapped\<close>: the file ends at a page boundary and nothing is mapped behind
  it. \<open>writable\<close> and \<open>read_only\<close>: a directory in which every file, or no file, can be
  created. \<open>unlimited\<close> and \<open>no_space\<close>: a disk that takes every byte, or none.
\<close>

definition zero_fill :: "nat \<Rightarrow> u8" where
  "zero_fill a = 0"

definition e1_fill :: "nat \<Rightarrow> u8" where
  "e1_fill a = 0xE1"

definition rest_mapped :: "nat \<Rightarrow> bool" where
  "rest_mapped a = True"

definition rest_unmapped :: "nat \<Rightarrow> bool" where
  "rest_unmapped a = False"

definition writable :: "string \<Rightarrow> bool" where
  "writable name = True"

definition read_only :: "string \<Rightarrow> bool" where
  "read_only name = False"

definition unlimited :: "string \<Rightarrow> nat option" where
  "unlimited name = None"

definition no_space :: "string \<Rightarrow> nat option" where
  "no_space name = Some 0"

definition sample :: "u8 list \<Rightarrow> env" where
  "sample bs = \<lparr>bytes = bs, beyond = zero_fill, mapped = rest_mapped,
                 creatable = writable, capacity = unlimited\<rparr>"

definition small_jpeg :: env where
  "small_jpeg = sample [0xFF, 0xD8, 0xFF, 0xE0, 0x00, 0x10, 0x4A, 0x46, 0x49, 0x46, 0x00, 0x01,
                        0xFF, 0xD9]"

definition locked_jpeg :: env where
  "locked_jpeg = small_jpeg\<lparr>creatable := read_only\<rparr>"

definition full_disk_jpeg :: env where
  "full_disk_jpeg = small_jpeg\<lparr>capacity := no_space\<rparr>"

definition two_part_jpeg :: env where
  "two_part_jpeg = sample [0xFF, 0xD8, 0xFF, 0xE1, 0x00, 0x10, 0x45, 0x78, 0x69, 0x66, 0x00, 0x00,
                           0xFF, 0xD9, 0xFF, 0xE1, 0x00, 0xFF, 0xD9]"

definition cut_jpeg :: env where
  "cut_jpeg = sample [0xFF, 0xD8, 0xFF, 0xE0, 0x00, 0x10, 0x4A, 0x46, 0x49, 0x46, 0x00, 0x01,
                      0x00, 0xFF]"

definition tail_jpeg :: env where
  "tail_jpeg = (sample [0xFF, 0xD8, 0xFF, 0xE0, 0x00, 0x10, 0x4A, 0x46, 0x49, 0x46, 0x00, 0x01,
                        0xFF, 0xD9, 0xFF])\<lparr>beyond := e1_fill\<rparr>"

definition long_text :: env where
  "long_text = sample (replicate 1024 0x41 @ [0x00])"

definition locked_text :: env where
  "locked_text = long_text\<lparr>creatable := read_only\<rparr>"

definition page_of_text :: env where
  "page_of_text = (sample (replicate 4096 0x41))\<lparr>mapped := rest_unmapped\<rparr>"

definition short_text :: env where
  "short_text = sample [0x41, 0x42, 0x00]"

definition one_letter :: env where
  "one_letter = sample [0x41]"

definition zero_byte :: env where
  "zero_byte = sample [0x00]"

section \<open>Properties of the operations\<close>

subsection \<open>The pattern matcher\<close>

lemma match_loop_full:
  "i \<le> pattern_size \<Longrightarrow>
   (match_loop m mem en pattern_size pattern msk i = pattern_size) =
   (\<forall>j. i \<le> j \<and> j < pattern_size \<longrightarrow>
        mem + j \<noteq> en \<and> (load m (mem + j) AND msk ! j) = pattern ! j)"
proof (induction m mem en pattern_size pattern msk i rule: match_loop.induct)
  case (1 m mem en pattern_size pattern msk i)
  let ?ok = "\<lambda>j. mem + j \<noteq> en \<and> (load m (mem + j) AND msk ! j) = pattern ! j"
  show ?case
  proof (cases "i < pattern_size \<and> ?ok i")
    case True
    then have step: "match_loop m mem en pattern_size pattern msk i =
                     match_loop m mem en pattern_size pattern msk (i + 1)"
      by (subst match_loop.simps) simp
    have ih: "(match_loop m mem en pattern_size pattern msk (i + 1) = pattern_size) =
              (\<forall>j. i + 1 \<le> j \<and> j < pattern_size \<longrightarrow> ?ok j)"
      using 1 True by simp
    have "(\<forall>j. i \<le> j \<and> j < pattern_size \<longrightarrow> ?ok j) =
          (\<forall>j. i + 1 \<le> j \<and> j < pattern_size \<longrightarrow> ?ok j)"
    proof
      assume "\<forall>j. i \<le> j \<and> j < pattern_size \<longrightarrow> ?ok j"
      then show "\<forall>j. i + 1 \<le> j \<and> j < pattern_size \<longrightarrow> ?ok j" by simp
    next
      assume r: "\<forall>j. i + 1 \<le> j \<and> j < pattern_size \<longrightarrow> ?ok j"
      show "\<forall>j. i \<le> j \<and> j < pattern_size \<longrightarrow> ?ok j"
      proof (intro allI impI)
        fix j assume "i \<le> j \<and> j < pattern_size"
        then have "j = i \<or> (i + 1 \<le> j \<and> j < pattern_size)" by arith
        then show "?ok j" using True r by blast
      qed
    qed
    with step ih show ?thesis by simp
  next
    case False
    then have stop: "match_loop m mem en pattern_size pattern msk i = i"
      by (subst match_loop.simps) auto
    show ?thesis
    proof (cases "i < pattern_size")
      case True
      with False have "\<not> ?ok i" by simp
      with True stop show ?thesis by auto
    next
      case False
      with 1(2) stop show ?thesis by auto
    qed
  qed
qed

lemma fits_iff:
  "mem \<le> en \<Longrightarrow> (\<forall>j<n. mem + j \<noteq> en) = (mem + n \<le> (en::nat))"
proof
  assume a: "mem \<le> en" "\<forall>j<n. mem + j \<noteq> en"
  show "mem + n \<le> en"
  proof (rule ccontr)
    assume "\<not> mem + n \<le> en"
    with a(1) have "en - mem < n" "mem + (en - mem) = en" by arith+
    with a(2) show False by blast
  qed
next
  assume "mem \<le> en" "mem + n \<le> en"
  then show "\<forall>j<n. mem + j \<noteq> en" by auto
qed

lemma check_if_bytes_match_iff:
  assumes "mem \<le> length (bytes m)"
  shows "check_if_bytes_match m mem (length (bytes m)) pattern_size pattern msk =
         (mem + pattern_size \<le> length (bytes m) \<and>
          (\<forall>i<pattern_size. (bytes m ! (mem + i) AND msk ! i) = pattern ! i))"
proof -
  let ?len = "length (bytes m)"
  have "check_if_bytes_match m mem ?len pattern_size pattern msk =
        (\<forall>j<pattern_size. mem + j \<noteq> ?len \<and> (load m (mem + j) AND msk ! j) = pattern ! j)"
    unfolding check_if_bytes_match_def using match_loop_full [of 0 pattern_size] by simp
  also have "\<dots> = ((\<forall>j<pattern_size. mem + j \<noteq> ?len) \<and>
                    (\<forall>j<pattern_size. (load m (mem + j) AND msk ! j) = pattern ! j))"
    by blast
  also have "\<dots> = (mem + pattern_size \<le> ?len \<and>
                    (\<forall>j<pattern_size. (load m (mem + j) AND msk ! j) = pattern ! j))"
    using fits_iff [OF assms] by simp
  also have "\<dots> = (mem + pattern_size \<le> ?len \<and>
                    (\<forall>i<pattern_size. (bytes m ! (mem + i) AND msk ! i) = pattern ! i))"
    by (auto simp: load_def)
  finally show ?thesis .
qed

lemma jpeg_is_header_first:
  assumes "jpeg_is_header m mem (length (bytes m))" and "mem \<le> length (bytes m)"
  shows "(bytes m ! mem AND 0xFF) = 0xFF"
proof -
  have "(bytes m ! mem AND jpeg_mask ! 0) = pattern ! 0"
    if "check_if_bytes_match m mem (length (bytes m)) 12 pattern jpeg_mask" for pattern
  proof -
    from that have "\<forall>i<12. (bytes m ! (mem + i) AND jpeg_mask ! i) = pattern ! i"
      by (simp add: check_if_bytes_match_iff [OF assms(2)])
    from this [rule_format, of 0] show ?thesis by simp
  qed
  with assms(1) show ?thesis
    by (auto simp: jpeg_is_header_def jpeg_pattern_size_def jfif_pattern_def exif_pattern_def
          jpeg_mask_def)
qed

text \<open>
  Called at a position of the buffer, with the end of the buffer, the header check
  depends on the bytes of the buffer alone.
\<close>

lemma jpeg_is_header_bytes_only:
  assumes "mem \<le> length (bytes m)" and "bytes m' = bytes m"
  shows "jpeg_is_header m' mem (length (bytes m)) = jpeg_is_header m mem (length (bytes m))"
proof -
  from assms have m': "mem \<le> length (bytes m')" by simp
  have "\<And>n pattern msk. check_if_bytes_match m' mem (length (bytes m)) n pattern msk =
                           check_if_bytes_match m mem (length (bytes m)) n pattern msk"
    using check_if_bytes_match_iff [OF assms(1)] check_if_bytes_match_iff [OF m']
    by (simp add: assms(2))
  then show ?thesis by (simp add: jpeg_is_header_def)
qed

subsection \<open>The footer search\<close>

lemma footer_loop_step:
  assumes "int q \<le> max_mem" and "max_mem \<le> int (length (bytes m)) - 2"
  shows "footer_loop m (length (bytes m)) max_mem q =
         (if terminator_at m q then Some (q + 2)
          else footer_loop m (length (bytes m)) max_mem (q + 1))"
proof -
  from assms have q: "q + 1 < length (bytes m)" by arith
  then have l0: "load m q = bytes m ! q" and l1: "load m (q + 1) = bytes m ! (q + 1)"
    by (simp_all add: load_def)
  show ?thesis
  proof (cases "q + 3 < length (bytes m)")
    case True
    then have "load m (q + 2) = bytes m ! (q + 2)" "load m (q + 3) = bytes m ! (q + 3)"
      by (simp_all add: load_def)
    with True assms(1) l0 l1 show ?thesis
      by (subst footer_loop.simps)
         (auto simp: terminator_at_def ffd9_at_def ffe1_follows_def)
  next
    case False
    with assms(1) l0 l1 q show ?thesis
      by (subst footer_loop.simps)
         (auto simp: terminator_at_def ffd9_at_def ffe1_follows_def)
  qed
qed

lemma footer_loop_skip:
  assumes "int F \<le> max_mem" and "max_mem \<le> int (length (bytes m)) - 2"
  shows "mem \<le> F \<Longrightarrow> (\<forall>q. mem \<le> q \<and> q < F \<longrightarrow> \<not> terminator_at m q) \<Longrightarrow>
         footer_loop m (length (bytes m)) max_mem mem = footer_loop m (length (bytes m)) max_mem F"
proof (induction "F - mem" arbitrary: mem)
  case 0
  then show ?case by simp
next
  case (Suc k)
  then have lt: "mem < F" and k: "k = F - (mem + 1)" and le: "mem + 1 \<le> F" by arith+
  from lt assms(1) have "int mem \<le> max_mem" by arith
  moreover from lt Suc.prems(2) have "\<not> terminator_at m mem" by simp
  ultimately have "footer_loop m (length (bytes m)) max_mem mem =
                   footer_loop m (length (bytes m)) max_mem (mem + 1)"
    using footer_loop_step [OF _ assms(2)] by simp
  also have "\<dots> = footer_loop m (length (bytes m)) max_mem F"
    using Suc.hyps(1) [OF k le] Suc.prems(2) by simp
  finally show ?case .
qed

lemma footer_loop_none:
  assumes "max_mem \<le> int (length (bytes m)) - 2"
  shows "(\<forall>q. mem \<le> q \<and> int q \<le> max_mem \<longrightarrow> \<not> terminator_at m q) \<Longrightarrow>
         footer_loop m (length (bytes m)) max_mem mem = None"
proof (induction "nat (max_mem + 1 - int mem)" arbitrary: mem)
  case 0
  then have "\<not> int mem \<le> max_mem" by arith
  then show ?case by (subst footer_loop.simps) simp
next
  case (Suc k)
  then have in_win: "int mem \<le> max_mem" and k: "k = nat (max_mem + 1 - int (mem + 1))"
    by arith+
  from in_win Suc.prems have "\<not> terminator_at m mem" by simp
  with in_win have "footer_loop m (length (bytes m)) max_mem mem =
                    footer_loop m (length (bytes m)) max_mem (mem + 1)"
    using footer_loop_step [OF _ assms] by simp
  also have "\<dots> = None"
    using Suc.hyps(1) [OF k] Suc.prems by simp
  finally show ?case .
qed

lemma footer_loop_Some:
  "footer_loop m en max_mem mem = Some e \<Longrightarrow> mem + 2 \<le> e \<and> int e \<le> max_mem + 2"
proof (induction m en max_mem mem rule: footer_loop.induct)
  case (1 m en max_mem mem)
  from "1.prems" have in_win: "int mem \<le> max_mem"
    by (subst (asm) footer_loop.simps) (simp split: if_splits)
  show ?case
  proof (cases "load m mem = 0xFF \<and> load m (mem + 1) = 0xD9")
    case True
    note ffd9 = this
    show ?thesis
    proof (cases "mem + 3 \<ge> en \<or> load m (mem + 2) \<noteq> 0xFF \<or> load m (mem + 3) \<noteq> 0xE1")
      case True
      with ffd9 in_win "1.prems" have "e = mem + 2"
        by (subst (asm) footer_loop.simps) auto
      with in_win show ?thesis by simp
    next
      case False
      with ffd9 in_win "1.prems" have "footer_loop m en max_mem (mem + 1) = Some e"
        by (subst (asm) footer_loop.simps) auto
      with "1.IH"(1) [OF in_win ffd9 False] show ?thesis by simp
    qed
  next
    case False
    with in_win "1.prems" have "footer_loop m en max_mem (mem + 1) = Some e"
      by (subst (asm) footer_loop.simps) auto
    with "1.IH"(2) [OF in_win False] show ?thesis by simp
  qed
qed

lemma jpeg_find_footer_window:
  "jpeg_find_footer m mem en = footer_loop m en (window_end mem en) mem"
  by (simp add: jpeg_find_footer_def window_end_def Let_def min_def)

lemma jpeg_find_footer_first:
  assumes "terminator_at m F" and "H \<le> F" and "int F \<le> int H + max_length_bytes"
    and "\<forall>q. H \<le> q \<and> q < F \<longrightarrow> \<not> terminator_at m q"
  shows "jpeg_find_footer m H (length (bytes m)) = Some (F + 2)"
proof -
  let ?w = "window_end H (length (bytes m))"
  from assms(1) have "F + 2 \<le> length (bytes m)"
    by (simp add: terminator_at_def ffd9_at_def)
  with assms(3) have inw: "int F \<le> ?w" by (simp add: window_end_def)
  have cap: "?w \<le> int (length (bytes m)) - 2" by (simp add: window_end_def)
  have "footer_loop m (length (bytes m)) ?w H = footer_loop m (length (bytes m)) ?w F"
    using footer_loop_skip [OF inw cap assms(2)] assms(4) by simp
  also have "\<dots> = Some (F + 2)"
    using footer_loop_step [OF inw cap] assms(1) by simp
  finally show ?thesis by (simp add: jpeg_find_footer_window)
qed

lemma jpeg_find_footer_none:
  assumes "\<forall>q. H \<le> q \<and> int q \<le> int H + max_length_bytes \<longrightarrow> \<not> terminator_at m q"
  shows "jpeg_find_footer m H (length (bytes m)) = None"
proof -
  let ?w = "window_end H (length (bytes m))"
  have cap: "?w \<le> int (length (bytes m)) - 2" by (simp add: window_end_def)
  have "\<forall>q. H \<le> q \<and> int q \<le> ?w \<longrightarrow> \<not> terminator_at m q"
  proof (intro allI impI)
    fix q assume q: "H \<le> q \<and> int q \<le> ?w"
    then have "int q \<le> int H + max_length_bytes" by (simp add: window_end_def)
    with q assms show "\<not> terminator_at m q" by simp
  qed
  from footer_loop_none [OF cap this] show ?thesis by (simp add: jpeg_find_footer_window)
qed

lemma jpeg_find_footer_Some:
  assumes "jpeg_find_footer m mem en = Some e"
  shows "mem + 2 \<le> e \<and> e \<le> en \<and> int e \<le> int mem + max_length_bytes + 2"
proof -
  from assms have "footer_loop m en (window_end mem en) mem = Some e"
    by (simp add: jpeg_find_footer_window)
  from footer_loop_Some [OF this] show ?thesis unfolding window_end_def by arith
qed

text \<open>The footer search, too, depends on the bytes of the buffer alone.\<close>

lemma footer_loop_bytes_only:
  assumes "bytes m' = bytes m" and "max_mem \<le> int (length (bytes m)) - 2"
  shows "footer_loop m' (length (bytes m)) max_mem mem =
         footer_loop m (length (bytes m)) max_mem mem"
proof (induction "nat (max_mem + 1 - int mem)" arbitrary: mem)
  case 0
  then have "\<not> int mem \<le> max_mem" by arith
  then show ?case by (subst footer_loop.simps, subst (2) footer_loop.simps) simp
next
  case (Suc k)
  then have in_win: "int mem \<le> max_mem" and k: "k = nat (max_mem + 1 - int (mem + 1))"
    by arith+
  from assms(1) have t: "terminator_at m' mem = terminator_at m mem"
    by (simp add: terminator_at_def ffd9_at_def ffe1_follows_def)
  from assms have cap': "max_mem \<le> int (length (bytes m')) - 2" by simp
  have "footer_loop m' (length (bytes m')) max_mem mem =
          (if terminator_at m' mem then Some (mem + 2)
           else footer_loop m' (length (bytes m')) max_mem (mem + 1))"
    by (rule footer_loop_step [OF in_win cap'])
  moreover have "footer_loop m (length (bytes m)) max_mem mem =
          (if terminator_at m mem then Some (mem + 2)
           else footer_loop m (length (bytes m)) max_mem (mem + 1))"
    by (rule footer_loop_step [OF in_win assms(2)])
  ultimately show ?case using t Suc.hyps(1) [OF k] assms(1) by simp
qed

lemma jpeg_find_footer_bytes_only:
  assumes "bytes m' = bytes m"
  shows "jpeg_find_footer m' H (length (bytes m)) = jpeg_find_footer m H (length (bytes m))"
proof -
  have "window_end H (length (bytes m)) \<le> int (length (bytes m)) - 2"
    by (simp add: window_end_def)
  from footer_loop_bytes_only [OF assms this] show ?thesis
    by (simp add: jpeg_find_footer_window)
qed

subsection \<open>The printable run\<close>

lemma run_end_unfold:
  "run_end m cur =
     (if cur < length (bytes m) \<and> printable (bytes m ! cur) then run_end m (cur + 1) else cur)"
proof (cases "cur < length (bytes m)")
  case True
  then have "drop cur (bytes m) = bytes m ! cur # drop (Suc cur) (bytes m)"
    by (simp add: Cons_nth_drop_Suc)
  then show ?thesis using True by (simp add: run_end_def)
next
  case False
  then show ?thesis by (simp add: run_end_def)
qed

lemma ascii_run_step:
  "ascii_run m en cur rd =
     (if bad_read m cur then Inl (BadRead cur)
      else if printable (load m cur) \<and> cur < en then ascii_run m en (cur + 1) (rd @ [cur])
      else Inr (cur, rd @ [cur]))"
  by (subst ascii_run.simps) (simp add: printable_def)

lemma ascii_run_bounds:
  "ascii_run m en cur rd = Inr (e, tr) \<Longrightarrow>
   cur \<le> e \<and> e \<le> max cur en \<and> tr = rd @ [cur..<Suc e]"
proof (induction m en cur rd rule: ascii_run.induct)
  case (1 m en cur rd)
  from "1.prems" have nb: "\<not> bad_read m cur"
    by (subst (asm) ascii_run.simps) (simp split: if_splits)
  show ?case
  proof (cases "load m cur \<ge> 0x20 \<and> load m cur \<le> 0x7E \<and> cur < en")
    case True
    with nb "1.prems" have "ascii_run m en (cur + 1) (rd @ [cur]) = Inr (e, tr)"
      by (subst (asm) ascii_run.simps) simp
    from "1.IH" [OF nb True this]
    have "cur + 1 \<le> e \<and> e \<le> max (cur + 1) en \<and> tr = (rd @ [cur]) @ [cur + 1..<Suc e]" .
    with True show ?thesis by (auto simp: upt_conv_Cons)
  next
    case False
    with nb "1.prems" have "Inr (cur, rd @ [cur]) = (Inr (e, tr) :: fault + nat \<times> nat list)"
      by (subst (asm) ascii_run.simps) auto
    then show ?thesis by auto
  qed
qed

lemma run_end_ge: "cur \<le> run_end m cur"
  by (simp add: run_end_def)

lemma run_end_le: "run_end m cur \<le> max cur (length (bytes m))"
proof -
  have "length (takeWhile printable (drop cur (bytes m))) \<le> length (drop cur (bytes m))"
    by (rule length_takeWhile_le)
  then show ?thesis by (simp add: run_end_def)
qed

text \<open>
  Called with the end of the buffer, the loop reads the offsets from \<open>cur\<close> to \<open>run_end\<close>,
  both included; the last of these reads is the only one that can be behind the buffer.
\<close>

lemma ascii_run_eq:
  "ascii_run m (length (bytes m)) cur rd =
     (if bad_read m (run_end m cur) then Inl (BadRead (run_end m cur))
      else Inr (run_end m cur, rd @ [cur..<Suc (run_end m cur)]))"
proof (induction "length (bytes m) - cur" arbitrary: cur rd)
  case 0
  then have ge: "\<not> cur < length (bytes m)" by simp
  then have "run_end m cur = cur" by (subst run_end_unfold) simp
  with ge show ?case by (subst ascii_run_step) simp
next
  case (Suc k)
  then have lt: "cur < length (bytes m)" and k: "k = length (bytes m) - (cur + 1)" by arith+
  then have ld: "load m cur = bytes m ! cur" by (simp add: load_def)
  from lt have nb: "\<not> bad_read m cur" by (simp add: bad_read_def)
  show ?case
  proof (cases "printable (bytes m ! cur)")
    case True
    with lt have r: "run_end m cur = run_end m (cur + 1)" by (subst run_end_unfold) simp
    have "cur + 1 \<le> run_end m (cur + 1)" by (rule run_end_ge)
    then have "[cur..<Suc (run_end m (cur + 1))] = cur # [cur + 1..<Suc (run_end m (cur + 1))]"
      by (simp add: upt_conv_Cons)
    with True lt ld nb r Suc.hyps(1) [OF k, of "rd @ [cur]"] show ?thesis
      by (subst ascii_run_step) simp
  next
    case False
    with lt have r: "run_end m cur = cur" by (subst run_end_unfold) simp
    with False lt ld nb show ?thesis by (subst ascii_run_step) simp
  qed
qed

lemma ascii_run_reads_in_bounds:
  assumes "run_end m cur < length (bytes m)"
  shows "\<exists>tr. ascii_run m (length (bytes m)) cur [] = Inr (run_end m cur, tr) \<and>
              (\<forall>a \<in> set tr. a < length (bytes m))"
  using assms by (auto simp: ascii_run_eq bad_read_def)

lemma ascii_run_reads_end:
  assumes "run_end m cur = length (bytes m)" and "mapped m (length (bytes m))"
  shows "\<exists>tr. ascii_run m (length (bytes m)) cur [] = Inr (length (bytes m), tr) \<and>
              length (bytes m) \<in> set tr"
proof -
  have "cur \<le> run_end m cur" by (rule run_end_ge)
  with assms show ?thesis by (simp add: ascii_run_eq bad_read_def)
qed

lemma ascii_run_fault_at_end:
  assumes "run_end m cur = length (bytes m)" and "\<not> mapped m (length (bytes m))"
  shows "ascii_run m (length (bytes m)) cur rd = Inl (BadRead (length (bytes m)))"
  using assms by (simp add: ascii_run_eq bad_read_def)

lemma ascii_run_mapped:
  "(\<forall>a. mapped m a) \<Longrightarrow> \<exists>e tr. ascii_run m en cur rd = Inr (e, tr)"
proof (induction m en cur rd rule: ascii_run.induct)
  case (1 m en cur rd)
  then have nb: "\<not> bad_read m cur" by (simp add: bad_read_def)
  show ?case
  proof (cases "load m cur \<ge> 0x20 \<and> load m cur \<le> 0x7E \<and> cur < en")
    case True
    from "1.IH" [OF nb True "1.prems"]
    obtain e tr where "ascii_run m en (cur + 1) (rd @ [cur]) = Inr (e, tr)" by blast
    with nb True show ?thesis by (subst ascii_run.simps) simp
  next
    case False
    with nb show ?thesis by (subst ascii_run.simps) auto
  qed
qed

subsection \<open>The sink and the detectors\<close>

lemma final_simps [simp]: "final (Inr s) = s" "final (Inl (c, s)) = s"
  by (simp_all add: final_def)

lemma and_then_simps [simp]: "and_then (Inr s) f = f s" "and_then (Inl c) f = Inl c"
  by (simp_all add: and_then_def)

lemma write_fragment_fragments:
  "fragments (final (write_fragment m a b ext s)) = fragments s @ [(a, b, ext)]"
  by (simp add: write_fragment_def Let_def)

lemma write_fragment_boundary:
  "g_ascii_ignore_before (final (write_fragment m a b ext s)) = g_ascii_ignore_before s"
  by (simp add: write_fragment_def Let_def)

lemma write_fragment_Inr:
  "creatable m (fragment_name ext (g_fragment_id s + 1)) \<Longrightarrow>
   \<exists>s'. write_fragment m a b ext s = Inr s'"
  by (simp add: write_fragment_def Let_def)

lemma write_fragment_cases:
  "write_fragment m a b ext s =
     (if creatable m (fragment_name ext (g_fragment_id s + 1))
      then Inr (final (write_fragment m a b ext s))
      else Inl (NullStream (fragment_name ext (g_fragment_id s + 1)),
                final (write_fragment m a b ext s)))"
  by (simp add: write_fragment_def Let_def)

lemma jpeg_rescue_no_header:
  "\<not> jpeg_is_header m cur en \<Longrightarrow> jpeg_rescue m cur en s = Inr s"
  by (simp add: jpeg_rescue_def)

lemma jpeg_rescue_no_footer:
  "jpeg_is_header m cur en \<Longrightarrow> jpeg_find_footer m cur en = None \<Longrightarrow>
   \<exists>s'. jpeg_rescue m cur en s = Inr s' \<and> fragments s' = fragments s \<and>
        g_ascii_ignore_before s' = g_ascii_ignore_before s \<and>
        g_fragment_id s' = g_fragment_id s"
  by (simp add: jpeg_rescue_def Let_def)

lemma jpeg_rescue_footer:
  "jpeg_is_header m cur en \<Longrightarrow> jpeg_find_footer m cur en = Some e \<Longrightarrow>
   fragments (final (jpeg_rescue m cur en s)) = fragments s @ [(cur, e, ''jpg'')]"
  by (simp add: jpeg_rescue_def Let_def write_fragment_fragments)

lemma jpeg_rescue_boundary:
  "g_ascii_ignore_before (final (jpeg_rescue m cur en s)) = g_ascii_ignore_before s"
  by (cases "jpeg_find_footer m cur en")
     (simp_all add: jpeg_rescue_def Let_def write_fragment_boundary)

lemma jpeg_rescue_fragments:
  "fragments (final (jpeg_rescue m cur en s)) = fragments s \<or>
   (\<exists>e. cur + 2 \<le> e \<and> e \<le> en \<and>
        fragments (final (jpeg_rescue m cur en s)) = fragments s @ [(cur, e, ''jpg'')])"
proof (cases "jpeg_is_header m cur en")
  case False
  then show ?thesis by (simp add: jpeg_rescue_no_header)
next
  case True
  show ?thesis
  proof (cases "jpeg_find_footer m cur en")
    case None
    with True jpeg_rescue_no_footer [of m cur en s] show ?thesis by auto
  next
    case (Some e)
    from jpeg_find_footer_Some [OF Some] jpeg_rescue_footer [OF True Some, of s]
    show ?thesis by auto
  qed
qed

lemma ascii_rescue_suppressed:
  "cur < g_ascii_ignore_before s \<Longrightarrow> ascii_rescue m cur en s = Inr s"
  by (simp add: ascii_rescue_def)

lemma ascii_rescue_fault:
  "g_ascii_ignore_before s \<le> cur \<Longrightarrow> ascii_run m en cur [] = Inl c \<Longrightarrow>
   ascii_rescue m cur en s = Inl (c, s)"
  by (simp add: ascii_rescue_def Let_def)

lemma ascii_rescue_short:
  "g_ascii_ignore_before s \<le> cur \<Longrightarrow> ascii_run m en cur [] = Inr (e, tr) \<Longrightarrow>
   e - cur < min_size_bytes \<Longrightarrow>
   ascii_rescue m cur en s = Inr (s\<lparr>g_ascii_ignore_before := e\<rparr>)"
  by (simp add: ascii_rescue_def Let_def)

lemma ascii_rescue_long:
  "g_ascii_ignore_before s \<le> cur \<Longrightarrow> ascii_run m en cur [] = Inr (e, tr) \<Longrightarrow>
   min_size_bytes \<le> e - cur \<Longrightarrow>
   ascii_rescue m cur en s =
     and_then
       (write_fragment m cur e ''txt''
          (s\<lparr>cerr := cerr s @ [''ASCII: '' @ dec (e - cur) @ '' bytes of text found'']\<rparr>))
       (\<lambda>s2. Inr (s2\<lparr>g_ascii_ignore_before := e\<rparr>))"
  by (simp add: ascii_rescue_def Let_def)

lemma and_then_write_fragment:
  "final (and_then (write_fragment m a b ext s) (\<lambda>s2. Inr (g s2))) =
     (if creatable m (fragment_name ext (g_fragment_id s + 1))
      then g (final (write_fragment m a b ext s))
      else final (write_fragment m a b ext s))"
  by (subst write_fragment_cases) simp

lemma ascii_rescue_boundary:
  "g_ascii_ignore_before s \<le> g_ascii_ignore_before (final (ascii_rescue m cur en s))"
proof (cases "cur < g_ascii_ignore_before s")
  case True
  then show ?thesis by (simp add: ascii_rescue_suppressed)
next
  case False
  then have b: "g_ascii_ignore_before s \<le> cur" by simp
  show ?thesis
  proof (cases "ascii_run m en cur []")
    case (Inl c)
    from ascii_rescue_fault [OF b Inl] show ?thesis by simp
  next
    case (Inr p)
    obtain e tr where p: "p = (e, tr)" by (cases p)
    with Inr have r: "ascii_run m en cur [] = Inr (e, tr)" by simp
    from ascii_run_bounds [OF r] have ge: "cur \<le> e" by simp
    show ?thesis
    proof (cases "min_size_bytes \<le> e - cur")
      case True
      show ?thesis
        using b ge
        by (simp add: ascii_rescue_long [OF b r True] and_then_write_fragment
              write_fragment_boundary)
    next
      case False
      then have "e - cur < min_size_bytes" by simp
      from ascii_rescue_short [OF b r this] b ge show ?thesis by simp
    qed
  qed
qed

lemma ascii_rescue_fragments:
  "fragments (final (ascii_rescue m cur en s)) = fragments s \<or>
   (\<exists>e. cur < e \<and> e \<le> max cur en \<and>
        fragments (final (ascii_rescue m cur en s)) = fragments s @ [(cur, e, ''txt'')])"
proof (cases "cur < g_ascii_ignore_before s")
  case True
  then show ?thesis by (simp add: ascii_rescue_suppressed)
next
  case False
  then have b: "g_ascii_ignore_before s \<le> cur" by simp
  show ?thesis
  proof (cases "ascii_run m en cur []")
    case (Inl c)
    from ascii_rescue_fault [OF b Inl] show ?thesis by simp
  next
    case (Inr p)
    obtain e tr where p: "p = (e, tr)" by (cases p)
    with Inr have r: "ascii_run m en cur [] = Inr (e, tr)" by simp
    show ?thesis
    proof (cases "min_size_bytes \<le> e - cur")
      case True
      then have "cur < e" by (simp add: min_size_bytes_def)
      moreover from ascii_run_bounds [OF r] have "e \<le> max cur en" by simp
      moreover have "fragments (final (ascii_rescue m cur en s)) = fragments s @ [(cur, e, ''txt'')]"
        by (simp add: ascii_rescue_long [OF b r True] and_then_write_fragment
              write_fragment_fragments)
      ultimately show ?thesis by blast
    next
      case False
      then have "e - cur < min_size_bytes" by simp
      from ascii_rescue_short [OF b r this] show ?thesis by simp
    qed
  qed
qed

text \<open>
  What \<^verbatim>\<open>ascii_rescue\<close> does where no fault ends it: at a position at or past the boundary,
  if the last read of the loop is not refused and the artifact of an emitted fragment can
  be created, it emits the fragment \<open>[position, run_end)\<close> if and only if the run has at
  least 1024 bytes, and sets the boundary to \<open>run_end\<close>.
\<close>

lemma ascii_rescue_without_fault:
  assumes "g_ascii_ignore_before s \<le> position"
    and "\<not> bad_read m (run_end m position)"
    and "1024 \<le> run_end m position - position \<longrightarrow>
         creatable m (fragment_name ''txt'' (g_fragment_id s + 1))"
  shows "\<exists>s'. ascii_rescue m position (length (bytes m)) s = Inr s' \<and>
              g_ascii_ignore_before s' = run_end m position \<and>
              fragments s' =
                (if 1024 \<le> run_end m position - position
                 then fragments s @ [(position, run_end m position, ''txt'')]
                 else fragments s)"
proof -
  let ?e = "run_end m position"
  from assms(2)
  have r: "ascii_run m (length (bytes m)) position [] = Inr (?e, [] @ [position..<Suc ?e])"
    by (simp add: ascii_run_eq)
  show ?thesis
  proof (cases "1024 \<le> ?e - position")
    case True
    let ?s1 = "s\<lparr>cerr := cerr s @ [''ASCII: '' @ dec (?e - position) @
                                    '' bytes of text found'']\<rparr>"
    from True have long: "min_size_bytes \<le> ?e - position" by (simp add: min_size_bytes_def)
    from True assms(3) have "creatable m (fragment_name ''txt'' (g_fragment_id ?s1 + 1))" by simp
    from write_fragment_Inr [OF this]
    obtain s2 where w: "write_fragment m position ?e ''txt'' ?s1 = Inr s2" ..
    have f: "fragments s2 = fragments s @ [(position, ?e, ''txt'')]"
      using write_fragment_fragments [of m position ?e "''txt''" ?s1] w by simp
    show ?thesis
      using True w f by (simp add: ascii_rescue_long [OF assms(1) r long])
  next
    case False
    then have "?e - position < min_size_bytes" by (simp add: min_size_bytes_def)
    from ascii_rescue_short [OF assms(1) r this] False show ?thesis by simp
  qed
qed

subsection \<open>Sequences of invocations and the driver loop\<close>

lemma run_calls_Nil [simp]: "run_calls m en [] r = r"
  by (simp add: run_calls_def)

lemma run_calls_Cons [simp]:
  "run_calls m en (c # cs) r = run_calls m en cs (and_then r (invoke m en c))"
  by (simp add: run_calls_def)

lemma run_calls_append:
  "run_calls m en (cs @ ds) r = run_calls m en ds (run_calls m en cs r)"
  by (simp add: run_calls_def)

lemma run_calls_Inl [simp]: "run_calls m en cs (Inl c) = Inl c"
  by (induction cs) simp_all

lemma driver_calls_done [simp]: "driver_calls en en = []"
  by (simp add: driver_calls_def)

lemma driver_calls_step:
  "cur < en \<Longrightarrow> driver_calls cur en = Jpeg cur # Ascii cur # driver_calls (cur + 1) en"
  by (simp add: driver_calls_def upt_conv_Cons)

lemma scan_loop_calls:
  "cur \<le> en \<Longrightarrow> scan_loop m en cur s = Some (run_calls m en (driver_calls cur en) (Inr s))"
proof (induction "en - cur" arbitrary: cur s)
  case 0
  then have "cur = en" by simp
  then show ?case by (subst scan_loop.simps) simp
next
  case (Suc k)
  then have lt: "cur < en" and k: "k = en - (cur + 1)" and le: "cur + 1 \<le> en" by arith+
  note ih = Suc.hyps(1) [OF k le]
  show ?case
  proof (cases "jpeg_rescue m cur en s")
    case (Inl c)
    with lt show ?thesis
      by (subst scan_loop.simps) (simp add: driver_calls_step invoke_def)
  next
    case j: (Inr s1)
    show ?thesis
    proof (cases "ascii_rescue m cur en s1")
      case (Inl c)
      with lt j show ?thesis
        by (subst scan_loop.simps) (simp add: driver_calls_step invoke_def)
    next
      case (Inr s2)
      with lt j ih [of s2] show ?thesis
        by (subst scan_loop.simps) (simp add: driver_calls_step invoke_def)
    qed
  qed
qed

lemma invoke_boundary:
  "g_ascii_ignore_before s \<le> g_ascii_ignore_before (final (invoke m en c s))"
  by (cases c) (simp_all add: invoke_def jpeg_rescue_boundary ascii_rescue_boundary)

lemma and_then_invoke_boundary:
  "g_ascii_ignore_before (final r) \<le> g_ascii_ignore_before (final (and_then r (invoke m en c)))"
proof (cases r)
  case (Inl c)
  then show ?thesis by simp
next
  case (Inr s)
  then show ?thesis by (simp add: invoke_boundary)
qed

lemma run_calls_boundary:
  "g_ascii_ignore_before (final r) \<le> g_ascii_ignore_before (final (run_calls m en cs r))"
proof (induction cs arbitrary: r)
  case Nil
  show ?case by simp
next
  case (Cons c cs)
  have "g_ascii_ignore_before (final r) \<le>
        g_ascii_ignore_before (final (and_then r (invoke m en c)))"
    by (rule and_then_invoke_boundary)
  also have "\<dots> \<le> g_ascii_ignore_before (final (run_calls m en cs (and_then r (invoke m en c))))"
    by (rule Cons.IH)
  finally show ?case by simp
qed

lemma invoke_well_bounded:
  assumes "list_all (well_bounded en) (fragments s)" and "position_of c \<le> en"
  shows "list_all (well_bounded en) (fragments (final (invoke m en c s)))"
proof (cases c)
  case (Jpeg cur)
  from jpeg_rescue_fragments [of m cur en s] assms(1) Jpeg show ?thesis
    by (auto simp: invoke_def well_bounded_def)
next
  case (Ascii cur)
  with assms(2) have "max cur en = en" by (simp add: position_of_def)
  with ascii_rescue_fragments [of m cur en s] assms(1) Ascii show ?thesis
    by (auto simp: invoke_def well_bounded_def)
qed

lemma run_calls_well_bounded:
  "list_all (well_bounded en) (fragments (final r)) \<Longrightarrow>
   list_all (\<lambda>c. position_of c \<le> en) cs \<Longrightarrow>
   list_all (well_bounded en) (fragments (final (run_calls m en cs r)))"
proof (induction cs arbitrary: r)
  case Nil
  then show ?case by simp
next
  case (Cons c cs)
  have "list_all (well_bounded en) (fragments (final (and_then r (invoke m en c))))"
  proof (cases r)
    case (Inl x)
    with Cons.prems(1) show ?thesis by simp
  next
    case (Inr s)
    with Cons.prems invoke_well_bounded [of en s c m] show ?thesis by simp
  qed
  with Cons.IH Cons.prems(2) show ?case by simp
qed

lemma driver_calls_positions:
  "list_all (\<lambda>c. position_of c < en) (driver_calls cur en)"
  by (simp add: driver_calls_def list_all_iff position_of_def)

text \<open>Where every artifact can be created and every read is answered, nothing faults.\<close>

lemma invoke_Inr:
  assumes "\<forall>name. creatable m name" and "\<forall>a. mapped m a"
  shows "\<exists>s'. invoke m en c s = Inr s'"
proof (cases c)
  case (Jpeg cur)
  show ?thesis
  proof (cases "jpeg_find_footer m cur en")
    case None
    with Jpeg show ?thesis by (simp add: invoke_def jpeg_rescue_def Let_def)
  next
    case (Some e)
    with Jpeg assms(1) show ?thesis
      by (simp add: invoke_def jpeg_rescue_def Let_def write_fragment_def)
  qed
next
  case (Ascii cur)
  from ascii_run_mapped [OF assms(2)]
  obtain e tr where "ascii_run m en cur [] = Inr (e, tr)" by blast
  with Ascii assms(1) show ?thesis
    by (simp add: invoke_def ascii_rescue_def Let_def write_fragment_def)
qed

lemma run_calls_Inr:
  assumes "\<forall>name. creatable m name" and "\<forall>a. mapped m a"
  shows "\<exists>s'. run_calls m en cs (Inr s) = Inr s'"
proof (induction cs arbitrary: s)
  case Nil
  show ?case by simp
next
  case (Cons c cs)
  from invoke_Inr [OF assms, of en c s] obtain s1 where "invoke m en c s = Inr s1" ..
  with Cons.IH [of s1] show ?case by simp
qed

text \<open>A fault ends the sequence: the outcome is that of the invocations made.\<close>

lemma run_calls_made:
  "run_calls m en cs r = run_calls m en (take (calls_made m en cs r) cs) r"
proof (induction cs arbitrary: r)
  case Nil
  show ?case by simp
next
  case (Cons c cs)
  show ?case
  proof (cases r)
    case (Inl x)
    then show ?thesis by simp
  next
    case (Inr s)
    with Cons.IH [of "invoke m en c s"] show ?thesis by simp
  qed
qed

subsection \<open>Ranges of offsets and maximal runs\<close>

lemma all_between_iff:
  "(\<forall>q. a \<le> q \<and> q < b \<longrightarrow> P q) = list_all P [a..<b]"
  by (auto simp: list_all_iff)

lemma terminator_at_inside: "terminator_at m q \<Longrightarrow> q + 2 \<le> length (bytes m)"
  by (simp add: terminator_at_def ffd9_at_def)

lemma no_terminator_from:
  assumes "list_all (\<lambda>q. \<not> terminator_at m q) [H..<length (bytes m)]"
  shows "\<forall>q. H \<le> q \<longrightarrow> \<not> terminator_at m q"
proof (intro allI impI notI)
  fix q assume "H \<le> q" and t: "terminator_at m q"
  from terminator_at_inside [OF t] have "q < length (bytes m)" by simp
  with \<open>H \<le> q\<close> assms have "\<not> terminator_at m q" by (simp add: list_all_iff)
  with t show False by simp
qed

lemma run_end_maximal:
  "(\<forall>i. position \<le> i \<and> i < run_end m position \<longrightarrow> printable (bytes m ! i)) \<and>
   run_end m position \<le> max position (length (bytes m)) \<and>
   (run_end m position < length (bytes m) \<longrightarrow> \<not> printable (bytes m ! run_end m position))"
proof -
  let ?t = "takeWhile printable (drop position (bytes m))"
  have a: "\<forall>i. position \<le> i \<and> i < run_end m position \<longrightarrow> printable (bytes m ! i)"
  proof (intro allI impI)
    fix i assume i: "position \<le> i \<and> i < run_end m position"
    then have k: "i - position < length ?t" unfolding run_end_def by arith
    have "length ?t \<le> length (drop position (bytes m))" by (rule length_takeWhile_le)
    with k have inb: "position + (i - position) < length (bytes m)" by simp
    from k have "?t ! (i - position) = drop position (bytes m) ! (i - position)"
      by (rule takeWhile_nth)
    also have "\<dots> = bytes m ! i" using inb i by simp
    finally have "bytes m ! i = ?t ! (i - position)" by simp
    moreover from k have "?t ! (i - position) \<in> set ?t" by simp
    then have "printable (?t ! (i - position))" by (rule set_takeWhileD [THEN conjunct2])
    ultimately show "printable (bytes m ! i)" by simp
  qed
  have c: "run_end m position < length (bytes m) \<longrightarrow> \<not> printable (bytes m ! run_end m position)"
  proof
    assume lt: "run_end m position < length (bytes m)"
    then have "length ?t < length (drop position (bytes m))" by (simp add: run_end_def)
    then have "\<not> printable (drop position (bytes m) ! length ?t)" by (rule nth_length_takeWhile)
    moreover from lt have "drop position (bytes m) ! length ?t = bytes m ! run_end m position"
      by (simp add: run_end_def)
    ultimately show "\<not> printable (bytes m ! run_end m position)" by simp
  qed
  from a c run_end_le show ?thesis by blast
qed

section \<open>The claims\<close>

text \<open>
  Claim C6 as it is stated, with the pattern byte masked too, fails on the code: for the
  one-byte pattern \<^verbatim>\<open>01\<close> under the mask \<^verbatim>\<open>00\<close> and the buffer \<^verbatim>\<open>00\<close> the masked
  comparison of the specification holds, and \<^verbatim>\<open>check_if_bytes_match\<close> returns false.
\<close>

theorem check_if_bytes_match_counterexample:
  "spec_masked_match zero_byte 0 1 [1] [0] \<and>
   \<not> check_if_bytes_match zero_byte 0 (length (bytes zero_byte)) 1 [1] [0]"
  by code_simp

text \<open>
  Claim C6, amended. For a position inside the buffer (or at its end),
  \<^verbatim>\<open>check_if_bytes_match\<close> returns true if and only if the whole pattern fits before the
  end of the buffer and every byte satisfies \<open>(data[position + i] & mask[i]) = pattern[i]\<close>,
  the pattern byte taken as it is, as the comment of the function says. This is the masked
  comparison of the specification for every pattern that has no bit outside its mask,
  as the JFIF and EXIF patterns; a pattern with a nonzero byte under a zero mask never
  matches; a pattern that would run past the end of the buffer never matches.
\<close>

theorem check_if_bytes_match_unmasked_pattern:
  assumes "mem \<le> length (bytes m)"
    and "length pattern = pattern_size" and "length msk = pattern_size"
  shows "check_if_bytes_match m mem (length (bytes m)) pattern_size pattern msk =
           (mem + pattern_size \<le> length (bytes m) \<and>
            (\<forall>i<pattern_size. (bytes m ! (mem + i) AND msk ! i) = pattern ! i)) \<and>
         ((\<forall>i<pattern_size. (pattern ! i AND msk ! i) = pattern ! i) \<longrightarrow>
            check_if_bytes_match m mem (length (bytes m)) pattern_size pattern msk =
            spec_masked_match m mem pattern_size pattern msk) \<and>
         ((\<exists>i<pattern_size. msk ! i = 0 \<and> pattern ! i \<noteq> 0) \<longrightarrow>
            \<not> check_if_bytes_match m mem (length (bytes m)) pattern_size pattern msk)"
proof (intro conjI impI)
  show code: "check_if_bytes_match m mem (length (bytes m)) pattern_size pattern msk =
           (mem + pattern_size \<le> length (bytes m) \<and>
            (\<forall>i<pattern_size. (bytes m ! (mem + i) AND msk ! i) = pattern ! i))"
    by (rule check_if_bytes_match_iff [OF assms(1)])
  {
    assume "\<forall>i<pattern_size. (pattern ! i AND msk ! i) = pattern ! i"
    then show "check_if_bytes_match m mem (length (bytes m)) pattern_size pattern msk =
               spec_masked_match m mem pattern_size pattern msk"
      by (auto simp: code spec_masked_match_def list_all_iff)
  }
  {
    assume "\<exists>i<pattern_size. msk ! i = 0 \<and> pattern ! i \<noteq> 0"
    then obtain i where "i < pattern_size" "msk ! i = 0" "pattern ! i \<noteq> 0" by blast
    then have "\<not> (\<forall>i<pattern_size. (bytes m ! (mem + i) AND msk ! i) = pattern ! i)"
      by force
    then show "\<not> check_if_bytes_match m mem (length (bytes m)) pattern_size pattern msk"
      by (simp add: code)
  }
qed

theorem check_if_bytes_match_unmasked_pattern_witness:
  "(0::nat) \<le> length (bytes small_jpeg) \<and> length jfif_pattern = 12 \<and> length jpeg_mask = 12 \<and>
   list_all (\<lambda>i. (jfif_pattern ! i AND jpeg_mask ! i) = jfif_pattern ! i) [0..<12] \<and>
   check_if_bytes_match small_jpeg 0 (length (bytes small_jpeg)) 12 jfif_pattern jpeg_mask \<and>
   spec_masked_match small_jpeg 0 12 jfif_pattern jpeg_mask"
proof -
  have h1: "(0::nat) \<le> length (bytes small_jpeg)" by simp
  have h2: "length jfif_pattern = 12" by code_simp
  have h3: "length jpeg_mask = 12" by code_simp
  have h4: "list_all (\<lambda>i. (jfif_pattern ! i AND jpeg_mask ! i) = jfif_pattern ! i) [0..<12]"
    by code_simp
  then have h4': "\<forall>i<12. (jfif_pattern ! i AND jpeg_mask ! i) = jfif_pattern ! i"
    by (simp add: list_all_iff)
  have v: "check_if_bytes_match small_jpeg 0 (length (bytes small_jpeg)) 12 jfif_pattern jpeg_mask"
    by code_simp
  from check_if_bytes_match_unmasked_pattern [OF h1 h2 h3] h4' v
  have "spec_masked_match small_jpeg 0 12 jfif_pattern jpeg_mask" by blast
  with h1 h2 h3 h4 v show ?thesis by blast
qed

text \<open>
  Claim C3. Let a JPEG header be recognised at offset \<open>H\<close>. If the first \<^verbatim>\<open>FF D9\<close> at or
  after \<open>H\<close> that is not immediately followed by \<^verbatim>\<open>FF E1\<close> starts at \<open>F\<close>, with \<open>F\<close> at
  most \<open>H + 40 * 1024 * 1024\<close> (and \<open>F + 2\<close> inside the buffer, which is part of
  \<open>terminator_at\<close>), then \<^verbatim>\<open>jpeg_rescue\<close> hands exactly the fragment \<open>[H, F + 2)\<close> with
  the extension \<^verbatim>\<open>jpg\<close> to the sink. If there is no such \<^verbatim>\<open>FF D9\<close> in that window, it hands
  over nothing and returns to the driver.
\<close>

theorem jpeg_rescue_first_terminator:
  assumes "jpeg_is_header m H (length (bytes m))"
  shows "(terminator_at m F \<and> H \<le> F \<and> int F \<le> int H + max_length_bytes \<and>
          (\<forall>q. H \<le> q \<and> q < F \<longrightarrow> \<not> terminator_at m q) \<longrightarrow>
            fragments (final (jpeg_rescue m H (length (bytes m)) s)) =
              fragments s @ [(H, F + 2, ''jpg'')]) \<and>
         ((\<forall>q. H \<le> q \<and> int q \<le> int H + max_length_bytes \<longrightarrow> \<not> terminator_at m q) \<longrightarrow>
            (\<exists>s'. jpeg_rescue m H (length (bytes m)) s = Inr s' \<and> fragments s' = fragments s))"
proof (intro conjI impI)
  assume "terminator_at m F \<and> H \<le> F \<and> int F \<le> int H + max_length_bytes \<and>
          (\<forall>q. H \<le> q \<and> q < F \<longrightarrow> \<not> terminator_at m q)"
  then have "jpeg_find_footer m H (length (bytes m)) = Some (F + 2)"
    by (intro jpeg_find_footer_first) simp_all
  from jpeg_rescue_footer [OF assms this]
  show "fragments (final (jpeg_rescue m H (length (bytes m)) s)) =
          fragments s @ [(H, F + 2, ''jpg'')]" .
next
  assume "\<forall>q. H \<le> q \<and> int q \<le> int H + max_length_bytes \<longrightarrow> \<not> terminator_at m q"
  then have "jpeg_find_footer m H (length (bytes m)) = None"
    by (rule jpeg_find_footer_none)
  from jpeg_rescue_no_footer [OF assms this, of s]
  show "\<exists>s'. jpeg_rescue m H (length (bytes m)) s = Inr s' \<and> fragments s' = fragments s"
    by blast
qed

theorem jpeg_rescue_first_terminator_witness:
  "jpeg_is_header small_jpeg 0 (length (bytes small_jpeg)) \<and> terminator_at small_jpeg 12 \<and>
   int 12 \<le> int 0 + max_length_bytes \<and>
   list_all (\<lambda>q. \<not> terminator_at small_jpeg q) [0..<12] \<and>
   fragments (final (jpeg_rescue small_jpeg 0 (length (bytes small_jpeg)) init_state)) =
     fragments init_state @ [(0, 12 + 2, ''jpg'')] \<and>
   jpeg_is_header cut_jpeg 0 (length (bytes cut_jpeg)) \<and>
   list_all (\<lambda>q. \<not> terminator_at cut_jpeg q) [0..<length (bytes cut_jpeg)] \<and>
   (\<exists>s'. jpeg_rescue cut_jpeg 0 (length (bytes cut_jpeg)) init_state = Inr s' \<and>
         fragments s' = fragments init_state)"
proof -
  have h: "jpeg_is_header small_jpeg 0 (length (bytes small_jpeg))" by code_simp
  have t: "terminator_at small_jpeg 12" by code_simp
  have w: "int 12 \<le> int 0 + max_length_bytes" by code_simp
  have n: "list_all (\<lambda>q. \<not> terminator_at small_jpeg q) [0..<12]" by code_simp
  then have n': "\<forall>q. 0 \<le> q \<and> q < 12 \<longrightarrow> \<not> terminator_at small_jpeg q"
    by (simp add: list_all_iff)
  have a: "fragments (final (jpeg_rescue small_jpeg 0 (length (bytes small_jpeg)) init_state)) =
           fragments init_state @ [(0, 12 + 2, ''jpg'')]"
    using jpeg_rescue_first_terminator [OF h, of 12 init_state] t w n' by simp
  have h2: "jpeg_is_header cut_jpeg 0 (length (bytes cut_jpeg))" by code_simp
  have c: "list_all (\<lambda>q. \<not> terminator_at cut_jpeg q) [0..<length (bytes cut_jpeg)]"
    by code_simp
  from no_terminator_from [OF c]
  have "\<forall>q. 0 \<le> q \<and> int q \<le> int 0 + max_length_bytes \<longrightarrow> \<not> terminator_at cut_jpeg q"
    by simp
  with jpeg_rescue_first_terminator [OF h2, of 0 init_state]
  have b: "\<exists>s'. jpeg_rescue cut_jpeg 0 (length (bytes cut_jpeg)) init_state = Inr s' \<and>
                fragments s' = fragments init_state"
    by blast
  from h t w n a h2 c b show ?thesis by blast
qed

text \<open>
  Claim C4. Let a JPEG header be recognised at \<open>H\<close>, let the first \<^verbatim>\<open>FF D9\<close> at or after
  \<open>H\<close> start at \<open>F1\<close> and be immediately followed by \<^verbatim>\<open>FF E1\<close>, and let the next
  \<^verbatim>\<open>FF D9\<close> start at \<open>F2\<close>, inside the 40 MiB window, with no \<^verbatim>\<open>FF E1\<close> behind it. Then
  the fragment that \<^verbatim>\<open>jpeg_rescue\<close> emits ends at \<open>F2 + 2\<close>, not at \<open>F1 + 2\<close>: the first
  candidate is skipped and the search goes on behind it.
\<close>

theorem jpeg_rescue_skips_continuation:
  assumes "jpeg_is_header m H (length (bytes m))"
    and "H \<le> F1" and "ffd9_at m F1" and "ffe1_follows m F1"
    and "\<forall>q. H \<le> q \<and> q < F1 \<longrightarrow> \<not> ffd9_at m q"
    and "F1 < F2" and "ffd9_at m F2" and "\<not> ffe1_follows m F2"
    and "\<forall>q. F1 < q \<and> q < F2 \<longrightarrow> \<not> ffd9_at m q"
    and "int F2 \<le> int H + max_length_bytes"
  shows "fragments (final (jpeg_rescue m H (length (bytes m)) s)) =
           fragments s @ [(H, F2 + 2, ''jpg'')] \<and> F2 + 2 \<noteq> F1 + 2"
proof -
  have t2: "terminator_at m F2" using assms(7,8) by (simp add: terminator_at_def)
  have none: "\<forall>q. H \<le> q \<and> q < F2 \<longrightarrow> \<not> terminator_at m q"
  proof (intro allI impI)
    fix q assume q: "H \<le> q \<and> q < F2"
    then consider "q < F1" | "q = F1" | "F1 < q" by arith
    then show "\<not> terminator_at m q"
    proof cases
      case 1
      with q assms(5) show ?thesis by (simp add: terminator_at_def)
    next
      case 2
      with assms(4) show ?thesis by (simp add: terminator_at_def)
    next
      case 3
      with q assms(9) show ?thesis by (simp add: terminator_at_def)
    qed
  qed
  from assms(2,6) have "H \<le> F2" by simp
  from jpeg_find_footer_first [OF t2 this assms(10) none]
  have "jpeg_find_footer m H (length (bytes m)) = Some (F2 + 2)" .
  from jpeg_rescue_footer [OF assms(1) this] assms(6) show ?thesis by simp
qed

theorem jpeg_rescue_skips_continuation_witness:
  "jpeg_is_header two_part_jpeg 0 (length (bytes two_part_jpeg)) \<and>
   ffd9_at two_part_jpeg 12 \<and> ffe1_follows two_part_jpeg 12 \<and>
   list_all (\<lambda>q. \<not> ffd9_at two_part_jpeg q) [0..<12] \<and>
   ffd9_at two_part_jpeg 17 \<and> \<not> ffe1_follows two_part_jpeg 17 \<and>
   list_all (\<lambda>q. \<not> ffd9_at two_part_jpeg q) [13..<17] \<and>
   int 17 \<le> int 0 + max_length_bytes \<and>
   fragments (final (jpeg_rescue two_part_jpeg 0 (length (bytes two_part_jpeg)) init_state)) =
     [(0, 19, ''jpg'')]"
proof -
  have h: "jpeg_is_header two_part_jpeg 0 (length (bytes two_part_jpeg))" by code_simp
  have a1: "ffd9_at two_part_jpeg 12" by code_simp
  have a2: "ffe1_follows two_part_jpeg 12" by code_simp
  have a3: "list_all (\<lambda>q. \<not> ffd9_at two_part_jpeg q) [0..<12]" by code_simp
  have a4: "ffd9_at two_part_jpeg 17" by code_simp
  have a5: "\<not> ffe1_follows two_part_jpeg 17" by code_simp
  have a6: "list_all (\<lambda>q. \<not> ffd9_at two_part_jpeg q) [13..<17]" by code_simp
  have a7: "int 17 \<le> int 0 + max_length_bytes" by code_simp
  from a3 have b3: "\<forall>q. 0 \<le> q \<and> q < 12 \<longrightarrow> \<not> ffd9_at two_part_jpeg q"
    by (simp add: list_all_iff)
  from a6 have "\<forall>q. 13 \<le> q \<and> q < 17 \<longrightarrow> \<not> ffd9_at two_part_jpeg q"
    by (simp only: all_between_iff)
  moreover have "\<And>q::nat. 12 < q \<Longrightarrow> 13 \<le> q" by arith
  ultimately have b6: "\<forall>q. 12 < q \<and> q < 17 \<longrightarrow> \<not> ffd9_at two_part_jpeg q"
    by blast
  have i: "fragments init_state = []" by (simp add: init_state_def)
  from jpeg_rescue_skips_continuation [OF h _ a1 a2 b3 _ a4 a5 b6 a7, of init_state] i
  have "fragments (final (jpeg_rescue two_part_jpeg 0 (length (bytes two_part_jpeg)) init_state)) =
          [(0, 19, ''jpg'')]" by simp
  with h a1 a2 a3 a4 a5 a6 a7 show ?thesis by blast
qed

text \<open>
  Claim C10. In the footer search for a header at \<open>H\<close>, let \<^verbatim>\<open>FF D9\<close> start at \<open>p\<close> with
  \<open>p + 3\<close> at or past the end of the buffer (fewer than two bytes follow it), let \<open>p\<close> be
  inside the 40 MiB window and let no terminator be accepted before \<open>p\<close>. Then the search
  returns \<open>p + 2\<close>, whatever the byte at \<open>p + 2\<close> and the memory behind the buffer hold:
  no continuation check is made. With \<open>p + 2 = length\<close> this is the JPEG whose \<^verbatim>\<open>FF D9\<close>
  ends exactly at the end of the buffer. The instance that follows has a buffer that
  ends with \<^verbatim>\<open>FF D9 FF\<close> and the byte \<^verbatim>\<open>E1\<close> behind it.
\<close>

theorem jpeg_find_footer_at_buffer_end:
  assumes "p + 2 \<le> length (bytes m)" and "length (bytes m) \<le> p + 3"
    and "bytes m ! p = 0xFF" and "bytes m ! (p + 1) = 0xD9"
    and "H \<le> p" and "int p \<le> int H + max_length_bytes"
    and "\<forall>q. H \<le> q \<and> q < p \<longrightarrow> \<not> terminator_at m q"
  shows "jpeg_find_footer m H (length (bytes m)) = Some (p + 2)"
proof -
  from assms(1-4) have "terminator_at m p"
    by (simp add: terminator_at_def ffd9_at_def ffe1_follows_def)
  from jpeg_find_footer_first [OF this assms(5,6,7)] show ?thesis .
qed

theorem jpeg_find_footer_at_buffer_end_witness:
  "(12::nat) + 2 \<le> length (bytes tail_jpeg) \<and> length (bytes tail_jpeg) \<le> 12 + 3 \<and>
   bytes tail_jpeg ! 12 = 0xFF \<and> bytes tail_jpeg ! (12 + 1) = 0xD9 \<and>
   bytes tail_jpeg ! (12 + 2) = 0xFF \<and> beyond tail_jpeg (12 + 3) = 0xE1 \<and>
   int 12 \<le> int 0 + max_length_bytes \<and>
   list_all (\<lambda>q. \<not> terminator_at tail_jpeg q) [0..<12] \<and>
   jpeg_find_footer tail_jpeg 0 (length (bytes tail_jpeg)) = Some (12 + 2)"
proof -
  have a1: "(12::nat) + 2 \<le> length (bytes tail_jpeg)" by code_simp
  have a2: "length (bytes tail_jpeg) \<le> 12 + 3" by code_simp
  have a3: "bytes tail_jpeg ! 12 = 0xFF" by code_simp
  have a4: "bytes tail_jpeg ! (12 + 1) = 0xD9" by code_simp
  have a5: "bytes tail_jpeg ! (12 + 2) = 0xFF" by code_simp
  have a6: "beyond tail_jpeg (12 + 3) = 0xE1" by code_simp
  have a7: "int 12 \<le> int 0 + max_length_bytes" by code_simp
  have a8: "list_all (\<lambda>q. \<not> terminator_at tail_jpeg q) [0..<12]" by code_simp
  then have b8: "\<forall>q. 0 \<le> q \<and> q < 12 \<longrightarrow> \<not> terminator_at tail_jpeg q"
    by (simp add: list_all_iff)
  from jpeg_find_footer_at_buffer_end [OF a1 a2 a3 a4 _ a7 b8]
  have "jpeg_find_footer tail_jpeg 0 (length (bytes tail_jpeg)) = Some (12 + 2)" by simp
  with a1 a2 a3 a4 a5 a6 a7 a8 show ?thesis by blast
qed

text \<open>
  Claim C5 fails on the code, in two ways; what holds where nothing faults is lemma
  \<open>ascii_rescue_without_fault\<close>. A file of 4096 printable bytes ends at a page boundary:
  the loop of \<^verbatim>\<open>ascii_rescue\<close> reads \<^verbatim>\<open>*cur\<close> at offset 4096 before it tests \<^verbatim>\<open>cur < end\<close>
  (the defect of claim C2), nothing is mapped there, and the process is ended before the
  fragment is emitted and before the boundary is set. And for a run of 1024 printable
  bytes in a directory where no file can be created, the process is ended in the sink
  (the defect of claim C1), before the assignment to \<^verbatim>\<open>g_ascii_ignore_before\<close> in line
  287: the boundary stays 0 where the claim has it at 1024.
\<close>

theorem ascii_rescue_ended_before_boundary:
  "run_end page_of_text 0 = 4096 \<and> length (bytes page_of_text) = 4096 \<and>
   g_ascii_ignore_before init_state = 0 \<and>
   ascii_rescue page_of_text 0 (length (bytes page_of_text)) init_state =
     Inl (BadRead 4096, init_state) \<and>
   run_end locked_text 0 = 1024 \<and>
   fault_of (ascii_rescue locked_text 0 (length (bytes locked_text)) init_state) =
     Some (NullStream ''txt-fragment-1.txt'') \<and>
   g_ascii_ignore_before
     (final (ascii_rescue locked_text 0 (length (bytes locked_text)) init_state)) = 0"
proof -
  have b: "g_ascii_ignore_before init_state = 0" by (simp add: init_state_def)
  then have b': "g_ascii_ignore_before init_state \<le> 0" by simp
  have p1: "run_end page_of_text 0 = 4096"
    by (simp add: run_end_def page_of_text_def sample_def printable_def)
  have p2: "length (bytes page_of_text) = 4096" by (simp add: page_of_text_def sample_def)
  have p3: "\<not> mapped page_of_text (length (bytes page_of_text))"
    by (simp add: page_of_text_def rest_unmapped_def)
  from p1 p2 have "run_end page_of_text 0 = length (bytes page_of_text)" by simp
  from ascii_run_fault_at_end [OF this p3, of "[]"]
  have "ascii_run page_of_text (length (bytes page_of_text)) 0 [] =
          Inl (BadRead (length (bytes page_of_text)))" .
  from ascii_rescue_fault [OF b' this] p2
  have p4: "ascii_rescue page_of_text 0 (length (bytes page_of_text)) init_state =
              Inl (BadRead 4096, init_state)" by simp
  have t1: "run_end locked_text 0 = 1024"
    by (simp add: run_end_def locked_text_def long_text_def sample_def printable_def
          takeWhile_append)
  have "\<not> bad_read locked_text 1024"
    by (simp add: bad_read_def locked_text_def long_text_def sample_def)
  then have t2: "\<not> bad_read locked_text (run_end locked_text 0)" by (simp add: t1)
  have r: "ascii_run locked_text (length (bytes locked_text)) 0 [] =
             Inr (1024, [] @ [0..<Suc 1024])"
    using t2 by (simp add: ascii_run_eq t1)
  have long: "min_size_bytes \<le> 1024 - 0" by (simp add: min_size_bytes_def)
  have n: "fragment_name ''txt'' 1 = ''txt-fragment-1.txt''" by code_simp
  have c: "\<not> creatable locked_text ''txt-fragment-1.txt''"
    by (simp add: locked_text_def read_only_def)
  from n c have w: "\<And>a e s. g_fragment_id s = 0 \<Longrightarrow>
      write_fragment locked_text a e ''txt'' s =
        Inl (NullStream ''txt-fragment-1.txt'',
             s\<lparr>g_fragment_id := 1, fragments := fragments s @ [(a, e, ''txt'')]\<rparr>)"
    by (simp add: write_fragment_def Let_def)
  have i: "g_fragment_id init_state = 0" by (simp add: init_state_def)
  have t3: "fault_of (ascii_rescue locked_text 0 (length (bytes locked_text)) init_state) =
              Some (NullStream ''txt-fragment-1.txt'')"
    by (simp add: ascii_rescue_long [OF b' r long] w i fault_of_def)
  have t4: "g_ascii_ignore_before
     (final (ascii_rescue locked_text 0 (length (bytes locked_text)) init_state)) = 0"
    by (simp add: ascii_rescue_long [OF b' r long] w i b)
  from p1 p2 b p4 t1 t3 t4 show ?thesis by blast
qed

text \<open>
  Claim C2 fails on the code. The loop condition evaluates \<^verbatim>\<open>*cur\<close> before it tests
  \<^verbatim>\<open>cur < end\<close>, so a run that reaches the end of the buffer makes the loop read the
  byte at offset \<open>length\<close> (lemma \<open>ascii_run_reads_end\<close>, and lemma
  \<open>ascii_run_fault_at_end\<close> where that read is refused; a run that stops earlier stays
  inside, lemma \<open>ascii_run_reads_in_bounds\<close>). For the buffer that is the single byte
  \<^verbatim>\<open>41\<close> the loop reads the offsets 0 and 1, and the buffer has length 1. The run is
  still measured to the last byte: the result is 1.
\<close>

theorem ascii_run_reads_past_end:
  "length (bytes one_letter) = 1 \<and>
   ascii_run one_letter (length (bytes one_letter)) 0 [] = Inr (1, [0, 1])"
  by code_simp

text \<open>
  Claim C7. For every buffer the scan returns, and every fragment that was handed to the
  sink during the scan, by either detector, satisfies \<open>start < end\<close> and
  \<open>end \<le> length\<close>.
\<close>

theorem scan_fragments_within_buffer:
  "\<exists>r. scan m = Some r \<and>
       (\<forall>(a, b, ext) \<in> set (fragments (final r)). a < b \<and> b \<le> length (bytes m))"
proof -
  let ?n = "length (bytes m)"
  let ?r = "run_calls m ?n (driver_calls 0 ?n) (Inr init_state)"
  have s: "scan m = Some ?r" by (simp add: scan_def scan_loop_calls)
  have "list_all (\<lambda>c. position_of c < ?n) (driver_calls 0 ?n)"
    by (rule driver_calls_positions)
  then have pos: "list_all (\<lambda>c. position_of c \<le> ?n) (driver_calls 0 ?n)"
    by (simp add: list_all_iff less_imp_le)
  have "list_all (well_bounded ?n) (fragments (final (Inr init_state)))"
    by (simp add: init_state_def)
  from run_calls_well_bounded [OF this pos]
  have "list_all (well_bounded ?n) (fragments (final ?r))" .
  then have "\<forall>(a, b, ext) \<in> set (fragments (final ?r)). a < b \<and> b \<le> ?n"
    by (auto simp: list_all_iff well_bounded_def)
  with s show ?thesis by blast
qed

theorem scan_fragments_within_buffer_witness:
  "\<exists>r. scan small_jpeg = Some r \<and> fragments (final r) = [(0, 14, ''jpg'')] \<and>
       (0::nat) < 14 \<and> 14 \<le> length (bytes small_jpeg)"
proof -
  have e: "map_option (fragments \<circ> final) (scan small_jpeg) = Some [(0, 14, ''jpg'')]"
    by code_simp
  from scan_fragments_within_buffer [of small_jpeg]
  obtain r where r: "scan small_jpeg = Some r"
    and b: "\<forall>(a, b, ext) \<in> set (fragments (final r)). a < b \<and> b \<le> length (bytes small_jpeg)"
    by blast
  from e r have f: "fragments (final r) = [(0, 14, ''jpg'')]" by simp
  with b have "(0::nat) < 14 \<and> 14 \<le> length (bytes small_jpeg)" by simp
  with r f show ?thesis by blast
qed

text \<open>
  Claim C8. The suppression boundary only moves forward: an invocation of the ASCII
  detector leaves it greater than or equal to what it was, an invocation of the JPEG
  detector leaves it as it was, and along every sequence of detector invocations the
  boundary after a prefix of the sequence is at most the boundary after the whole of it.
\<close>

theorem ascii_boundary_monotone:
  "g_ascii_ignore_before s \<le> g_ascii_ignore_before (final (ascii_rescue m cur en s)) \<and>
   g_ascii_ignore_before (final (jpeg_rescue m cur en s)) = g_ascii_ignore_before s \<and>
   g_ascii_ignore_before (final (run_calls m en cs r)) \<le>
     g_ascii_ignore_before (final (run_calls m en (cs @ ds) r))"
proof (intro conjI)
  show "g_ascii_ignore_before s \<le> g_ascii_ignore_before (final (ascii_rescue m cur en s))"
    by (rule ascii_rescue_boundary)
  show "g_ascii_ignore_before (final (jpeg_rescue m cur en s)) = g_ascii_ignore_before s"
    by (rule jpeg_rescue_boundary)
  show "g_ascii_ignore_before (final (run_calls m en cs r)) \<le>
        g_ascii_ignore_before (final (run_calls m en (cs @ ds) r))"
    by (simp add: run_calls_append run_calls_boundary)
qed

theorem ascii_boundary_monotone_witness:
  "g_ascii_ignore_before init_state = 0 \<and>
   g_ascii_ignore_before (final (ascii_rescue short_text 0 3 init_state)) = 2 \<and>
   g_ascii_ignore_before
     (final (run_calls short_text 3 ([Ascii 0] @ [Jpeg 1, Ascii 1]) (Inr init_state))) = 2"
proof -
  have a: "g_ascii_ignore_before init_state = 0" by (simp add: init_state_def)
  have b: "g_ascii_ignore_before (final (ascii_rescue short_text 0 3 init_state)) = 2"
    by code_simp
  have c: "g_ascii_ignore_before
     (final (run_calls short_text 3 ([Ascii 0] @ [Jpeg 1, Ascii 1]) (Inr init_state))) \<le> 2"
    by code_simp
  from ascii_boundary_monotone [of init_state short_text 0 3 "[Ascii 0]" "Inr init_state"
      "[Jpeg 1, Ascii 1]"] b c
  have "g_ascii_ignore_before
     (final (run_calls short_text 3 ([Ascii 0] @ [Jpeg 1, Ascii 1]) (Inr init_state))) = 2"
    by (simp add: invoke_def)
  with a b show ?thesis by blast
qed

text \<open>
  Claim C9 fails on the code. The loop of \<^verbatim>\<open>main\<close> is the sequence \<open>driver_calls\<close> (lemma
  \<open>scan_loop_calls\<close>), but a fault inside a detector ends the process and with it the
  loop (lemma \<open>run_calls_made\<close>). For the 14-byte JPEG in a directory where no file can be
  created, one of the 28 invocations is made: the sink faults in the JPEG detector at
  offset 0 (the defect of claim C1), and neither the ASCII detector at offset 0 nor any
  detector at the offsets 1 to 13 is invoked. For the file of 4096 printable bytes that
  ends at a page boundary the scan ends in the ASCII detector at offset 0 (the defect of
  claim C2), in the initial state: the offsets 1 to 4095 are never visited.
\<close>

theorem scan_ends_at_first_fault:
  "length (bytes locked_jpeg) = 14 \<and> length (driver_calls 0 14) = 28 \<and>
   calls_made locked_jpeg 14 (driver_calls 0 14) (Inr init_state) = 1 \<and>
   scan locked_jpeg = Some (run_calls locked_jpeg 14 [Jpeg 0] (Inr init_state)) \<and>
   fault_of (run_calls locked_jpeg 14 [Jpeg 0] (Inr init_state)) =
     Some (NullStream ''jpg-fragment-1.jpg'') \<and>
   length (bytes page_of_text) = 4096 \<and>
   scan page_of_text = Some (Inl (BadRead 4096, init_state))"
proof -
  have n: "length (bytes locked_jpeg) = 14" by code_simp
  have d: "length (driver_calls 0 14) = 28" by code_simp
  have c: "calls_made locked_jpeg 14 (driver_calls 0 14) (Inr init_state) = 1" by code_simp
  have t: "take 1 (driver_calls 0 14) = [Jpeg 0]" by code_simp
  have "scan locked_jpeg =
          Some (run_calls locked_jpeg 14 (driver_calls 0 14) (Inr init_state))"
    by (simp add: scan_def scan_loop_calls n)
  also have "run_calls locked_jpeg 14 (driver_calls 0 14) (Inr init_state) =
             run_calls locked_jpeg 14 (take 1 (driver_calls 0 14)) (Inr init_state)"
    using run_calls_made [of locked_jpeg 14 "driver_calls 0 14" "Inr init_state"]
    by (simp only: c)
  finally have s: "scan locked_jpeg = Some (run_calls locked_jpeg 14 [Jpeg 0] (Inr init_state))"
    by (simp only: t)
  have f: "fault_of (run_calls locked_jpeg 14 [Jpeg 0] (Inr init_state)) =
             Some (NullStream ''jpg-fragment-1.jpg'')"
    by code_simp
  have p2: "length (bytes page_of_text) = 4096" by (simp add: page_of_text_def sample_def)
  have b: "g_ascii_ignore_before init_state \<le> 0" by (simp add: init_state_def)
  have "bytes page_of_text ! 0 = 0x41" by (simp add: page_of_text_def sample_def)
  moreover have "((0x41 :: u8) AND 0xFF) \<noteq> 0xFF" by code_simp
  ultimately have "\<not> jpeg_is_header page_of_text 0 (length (bytes page_of_text))"
    using jpeg_is_header_first [of page_of_text 0] by auto
  then have j: "jpeg_rescue page_of_text 0 4096 init_state = Inr init_state"
    by (simp add: jpeg_rescue_no_header p2)
  have p1: "run_end page_of_text 0 = length (bytes page_of_text)"
    by (simp add: run_end_def page_of_text_def sample_def printable_def)
  have p3: "\<not> mapped page_of_text (length (bytes page_of_text))"
    by (simp add: page_of_text_def rest_unmapped_def)
  from ascii_rescue_fault [OF b ascii_run_fault_at_end [OF p1 p3, of "[]"]] p2
  have a: "ascii_rescue page_of_text 0 4096 init_state = Inl (BadRead 4096, init_state)"
    by simp
  have "driver_calls 0 4096 = Jpeg 0 # Ascii 0 # driver_calls (0 + 1) 4096"
    by (rule driver_calls_step) simp
  with j a have "run_calls page_of_text 4096 (driver_calls 0 4096) (Inr init_state) =
                 Inl (BadRead 4096, init_state)"
    by (simp add: invoke_def)
  then have p: "scan page_of_text = Some (Inl (BadRead 4096, init_state))"
    by (simp add: scan_def scan_loop_calls p2)
  from n d c s f p2 p show ?thesis by blast
qed

text \<open>
  Claim C1 fails on the code. \<^verbatim>\<open>write_fragment\<close> uses the results of \<^verbatim>\<open>fopen\<close>, \<^verbatim>\<open>fwrite\<close>
  and \<^verbatim>\<open>fclose\<close> unchecked, where \<^verbatim>\<open>main\<close> checks those of \<^verbatim>\<open>open\<close>, \<^verbatim>\<open>fstat\<close> and \<^verbatim>\<open>mmap\<close>.
  In a directory where no file can be created, the scan of a 14-byte JPEG ends inside the
  sink at the first fragment: the diagnostics are those of the detector only, nothing
  tells of the failure, and no later offset is reached (the boundary stays 0, where the
  same scan in a writable directory leaves it at 13). On a disk that takes no byte the
  scan goes on, but the fragment is not dropped and nothing tells of the failure: the
  artifact is there without its bytes, and the \<^verbatim>\<open>gzip\<close> line and the line that reports 14
  written bytes are printed.
\<close>

theorem sink_failures_unchecked:
  "map_option fault_of (scan locked_jpeg) = Some (Some (NullStream ''jpg-fragment-1.jpg'')) \<and>
   map_option (cerr \<circ> final) (scan locked_jpeg) =
     Some [''JPEG: found header at byte 0'', ''JPEG: footer found''] \<and>
   map_option (cout \<circ> final) (scan locked_jpeg) = Some [] \<and>
   map_option (g_ascii_ignore_before \<circ> final) (scan locked_jpeg) = Some 0 \<and>
   map_option (g_ascii_ignore_before \<circ> final) (scan small_jpeg) = Some 13 \<and>
   map_option fault_of (scan full_disk_jpeg) = Some None \<and>
   map_option (artifact ''jpg-fragment-1.jpg'') (scan full_disk_jpeg) = Some (Some []) \<and>
   map_option (cout \<circ> final) (scan full_disk_jpeg) = Some [''gzip jpg-fragment-1.jpg''] \<and>
   map_option (cerr \<circ> final) (scan full_disk_jpeg) =
     Some [''JPEG: found header at byte 0'', ''JPEG: footer found'',
           ''Wrote jpg-fragment-1.jpg (14 bytes)'']"
  by code_simp

end
